theory Spec2Isabelle
  imports Main
begin

section \<open>Data model\<close>

text \<open>
  The scan stage (\<^verbatim>\<open>healthTool.execute\<close>) talks to two HTTP services and the report stage
  (\<^verbatim>\<open>explainVulnerabilities.execute\<close>) to a narrator agent. Both are external, so the
  model takes them as an oracle (\<open>world\<close>) and records every call in a trace. Strings are
  lists of characters; the code only tests characters of the ASCII range.
  Debug logging and the mirroring of narrator chunks to standard output are not modelled.
\<close>

text \<open>One entry of the \<^verbatim>\<open>findings\<close> array of the output schema.\<close>

record finding =
  package :: string
  version :: string
  cves :: "string list"
  summary :: string

text \<open>The output of the scan stage: \<^verbatim>\<open>{ findings, error? }\<close>.\<close>

record scan_result =
  findings :: "finding list"
  error :: "string option"

text \<open>
  What a \<^verbatim>\<open>catch\<close> clause can receive: an \<^verbatim>\<open>AxiosError\<close> (with the response, if one
  arrived: its status and the \<^verbatim>\<open>message\<close> field of its body, if any), another
  \<^verbatim>\<open>Error\<close>, or any other thrown value (by its \<^verbatim>\<open>String(...)\<close>).
\<close>

datatype js_error =
    AxiosError "(int \<times> string option) option" string
  | Error string
  | Thrown string

text \<open>\<^verbatim>\<open>a || b\<close> where \<open>a\<close> is a string or undefined: the empty string is falsy.\<close>

definition js_or :: "string option \<Rightarrow> string \<Rightarrow> string" where
  "js_or a b = (case a of None \<Rightarrow> b | Some s \<Rightarrow> if s = [] then b else s)"

fun getErrorMessage :: "js_error \<Rightarrow> string" where
  "getErrorMessage (AxiosError resp msg) =
     js_or (case resp of None \<Rightarrow> None | Some (st, m) \<Rightarrow> m)
       (js_or (Some msg) ''Unknown Axios error'')"
| "getErrorMessage (Error msg) = msg"
| "getErrorMessage (Thrown s) = js_or (Some s) ''Unknown error''"

text \<open>\<^verbatim>\<open>error instanceof AxiosError && error.response?.status === code\<close>\<close>

fun has_status :: "js_error \<Rightarrow> int \<Rightarrow> bool" where
  "has_status (AxiosError (Some (st, m)) msg) code = (st = code)"
| "has_status e code = False"

text \<open>
  A JavaScript object with string values, as the list of its own properties in iteration
  order: array-index keys in ascending numeric order first, then the other keys in the
  order of their creation.
\<close>

type_synonym js_object = "(string \<times> string) list"

text \<open>
  The body of the manifest response. A falsy body (empty, \<^verbatim>\<open>null\<close>) is \<open>None\<close>; of
  any other body the code reads only the fields \<^verbatim>\<open>dependencies\<close> and
  \<^verbatim>\<open>devDependencies\<close>, each absent or an object from package names to version ranges.
\<close>

record manifest =
  dependencies :: "js_object option"
  devDependencies :: "js_object option"

datatype get_result = GetOk "manifest option" | GetFail js_error

text \<open>One entry of the \<^verbatim>\<open>vulns\<close> array of a vulnerability-database response.\<close>

record vuln =
  vuln_id :: string
  vuln_summary :: "string option"

text \<open>
  The body of a vulnerability-database response: no body at all (reading \<^verbatim>\<open>.vulns\<close> of it
  throws a TypeError inside the \<^verbatim>\<open>try\<close>), or a body whose \<^verbatim>\<open>vulns\<close> field is absent or a
  list.
\<close>

datatype osv_body = NoBody | Body "vuln list option"

datatype post_result = PostOk osv_body | PostFail js_error

text \<open>The body of the query: \<^verbatim>\<open>{ package: { name, ecosystem }, version }\<close>.\<close>

record osv_query =
  q_name :: string
  q_ecosystem :: string
  q_version :: string

datatype event =
    HttpGet string
  | HttpPost osv_query
  | Delay int
  | Narrate string

text \<open>
  The environment: the answer to the \<open>k\<close>-th HTTP call of a run (counted from 0) as a
  function of the request, \<^verbatim>\<open>JSON.stringify(findings, null, 2)\<close>, and the narrator agent,
  which answers a prompt with the chunks of its text stream or throws.
\<close>

record world =
  http_get :: "nat \<Rightarrow> string \<Rightarrow> get_result"
  http_post :: "nat \<Rightarrow> osv_query \<Rightarrow> post_result"
  stringify :: "finding list \<Rightarrow> string"
  narrator :: "string \<Rightarrow> js_error + string list"

text \<open>The state of a run of the scan stage: the calls so far and the findings so far.\<close>

record run_state =
  trace :: "event list"
  calls :: nat
  found :: "finding list"

definition init_state :: run_state where
  "init_state = \<lparr>trace = [], calls = 0, found = []\<rparr>"

definition emit :: "event \<Rightarrow> run_state \<Rightarrow> run_state" where
  "emit e st = st\<lparr>trace := trace st @ [e]\<rparr>"

definition request :: "event \<Rightarrow> run_state \<Rightarrow> run_state" where
  "request e st = st\<lparr>trace := trace st @ [e], calls := Suc (calls st)\<rparr>"

section \<open>Input handling\<close>

text \<open>\<^verbatim>\<open>String.prototype.endsWith\<close>\<close>

definition endsWith :: "string \<Rightarrow> string \<Rightarrow> bool" where
  "endsWith s suf = (length suf \<le> length s \<and> drop (length s - length suf) s = suf)"

text \<open>
  \<^verbatim>\<open>input.replace(/[<>{}\[\];]/g, "").replace(/\.3js$/, "")\<close>: the first replacement
  deletes every character of the class, the second one occurrence of \<^verbatim>\<open>.3js\<close> at the end.
\<close>

definition sanitizeInput :: "string \<Rightarrow> string" where
  "sanitizeInput input =
     (let s = filter (\<lambda>c. c \<notin> set ''<>{}[];'') input
      in if endsWith s ''.3js'' then take (length s - 4) s else s)"

definition not_slash :: "char \<Rightarrow> bool" where
  "not_slash c = (c \<noteq> CHR ''/'')"

text \<open>
  The regular expression
  \<^verbatim>\<open>/github\.com\/([^/]+)\/([^/]+)(?:\/([^/]+))?(\/|$)/\<close> tried at the start of \<open>s\<close>.
  Each \<^verbatim>\<open>[^/]+\<close> is greedy and can only be followed by a slash or the end, so it takes
  the whole run of characters up to the next slash. The result is the groups 1, 2 and 3
  (group 3 is undefined when the optional part does not take part in the match).
\<close>

definition match_here :: "string \<Rightarrow> (string \<times> string \<times> string option) option" where
  "match_here s =
     (if take 11 s = ''github.com/'' then
        (let r = drop 11 s;
             owner = takeWhile not_slash r;
             r1 = dropWhile not_slash r
         in if owner = [] then None
            else (case r1 of
                    [] \<Rightarrow> None
                  | c # r2 \<Rightarrow>
                      (let repo = takeWhile not_slash r2;
                           r3 = dropWhile not_slash r2
                       in if repo = [] then None
                          else (case r3 of
                                  [] \<Rightarrow> Some (owner, repo, None)
                                | d # r4 \<Rightarrow>
                                    (let b = takeWhile not_slash r4
                                     in Some (owner, repo, if b = [] then None else Some b))))))
      else None)"

text \<open>\<^verbatim>\<open>repoUrl.match(...)\<close>: the leftmost position at which the expression matches.\<close>

fun repo_match :: "string \<Rightarrow> (string \<times> string \<times> string option) option" where
  "repo_match [] = None"
| "repo_match (c # cs) =
     (case match_here (c # cs) of
        Some m \<Rightarrow> Some m
      | None \<Rightarrow> repo_match cs)"

section \<open>Version normalisation\<close>

text \<open>
  \<^verbatim>\<open>String(versionRaw).replace("^", "").replace("~", "")\<close>: \<^verbatim>\<open>replace\<close> with a string
  pattern deletes the first occurrence of the pattern, wherever it stands, which for a
  pattern of one character is \<open>remove1\<close>.
\<close>

definition normalize_version :: "string \<Rightarrow> string" where
  "normalize_version versionRaw = remove1 (CHR ''~'') (remove1 (CHR ''^'') versionRaw)"

section \<open>The merged dependency map\<close>

definition is_digit :: "char \<Rightarrow> bool" where
  "is_digit c = (c \<in> set ''0123456789'')"

definition num_of :: "string \<Rightarrow> int" where
  "num_of k = foldl (\<lambda>a c. 10 * a + (of_char c - 48)) 0 k"

text \<open>
  An array index: the canonical decimal form of an integer from 0 to \<open>2^32 - 2\<close>. Such keys
  come first when an object is iterated, in ascending numeric order.
\<close>

definition is_array_index :: "string \<Rightarrow> bool" where
  "is_array_index k =
     (k \<noteq> [] \<and> list_all is_digit k \<and> (if hd k = CHR ''0'' then k = ''0'' else True)
      \<and> num_of k < 4294967295)"

fun insert_index :: "string \<Rightarrow> string \<Rightarrow> js_object \<Rightarrow> js_object" where
  "insert_index k v [] = [(k, v)]"
| "insert_index k v ((k', v') # rest) =
     (if is_array_index k' \<and> num_of k' < num_of k then (k', v') # insert_index k v rest
      else (k, v) # (k', v') # rest)"

fun overwrite :: "string \<Rightarrow> string \<Rightarrow> js_object \<Rightarrow> js_object" where
  "overwrite k v [] = []"
| "overwrite k v ((k', v') # rest) =
     (if k' = k then (k, v) # rest else (k', v') # overwrite k v rest)"

text \<open>
  Defining the property \<open>k\<close> on an object: an existing property keeps its place and takes
  the new value; a new array index goes to its numeric place; any other new key goes last.
\<close>

definition js_put :: "js_object \<Rightarrow> string \<times> string \<Rightarrow> js_object" where
  "js_put obj kv =
     (if fst kv \<in> set (map fst obj) then overwrite (fst kv) (snd kv) obj
      else if is_array_index (fst kv) then insert_index (fst kv) (snd kv) obj
      else obj @ [kv])"

text \<open>\<^verbatim>\<open>{ ...target, ...src }\<close>: spreading undefined adds nothing.\<close>

definition spread :: "js_object \<Rightarrow> js_object option \<Rightarrow> js_object" where
  "spread target src = foldl js_put target (case src of None \<Rightarrow> [] | Some ps \<Rightarrow> ps)"

text \<open>\<^verbatim>\<open>{ ...json.dependencies, ...json.devDependencies }\<close>\<close>

definition merged_dependencies :: "manifest \<Rightarrow> js_object" where
  "merged_dependencies json = spread (spread [] (dependencies json)) (devDependencies json)"

text \<open>\<^verbatim>\<open>Object.entries(dependencies).slice(0, 10)\<close>\<close>

definition limitedDeps :: "js_object \<Rightarrow> js_object" where
  "limitedDeps deps = take 10 deps"

section \<open>The manifest fetch\<close>

text \<open>
  The loop \<^verbatim>\<open>while (retries > 0)\<close> around \<^verbatim>\<open>axios.get\<close>, by recursion on \<open>retries\<close>.
  It leaves with the body (\<^verbatim>\<open>break\<close>), with the error string of the early \<^verbatim>\<open>return\<close>, or,
  were \<open>retries\<close> to reach 0, with \<^verbatim>\<open>json\<close> still undefined.
\<close>

fun fetch_loop :: "world \<Rightarrow> string \<Rightarrow> nat \<Rightarrow> run_state \<Rightarrow> (string + manifest option) \<times> run_state" where
  "fetch_loop w packageUrl 0 st = (Inr None, st)"
| "fetch_loop w packageUrl (Suc n) st =
     (case http_get w (calls st) packageUrl of
        GetOk body \<Rightarrow> (Inr body, request (HttpGet packageUrl) st)
      | GetFail err \<Rightarrow>
          if Suc n > 1 \<and> has_status err 504
          then fetch_loop w packageUrl n (emit (Delay 2000) (request (HttpGet packageUrl) st))
          else (Inl (''Failed to fetch package.json: '' @ getErrorMessage err),
                request (HttpGet packageUrl) st))"

section \<open>The vulnerability lookup\<close>

text \<open>The body of the \<^verbatim>\<open>try\<close> after the response has arrived (lines 126 to 137).\<close>

definition record_vulns :: "string \<Rightarrow> string \<Rightarrow> vuln list \<Rightarrow> run_state \<Rightarrow> run_state" where
  "record_vulns pkg ver vulns st =
     (if length vulns > 0
      then st\<lparr>found := found st @
             [\<lparr>package = pkg, version = ver, cves = map vuln_id vulns,
               summary = js_or (case vulns of [] \<Rightarrow> None | v # vs \<Rightarrow> vuln_summary v) ''No summary''\<rparr>]\<rparr>
      else st)"

definition osv_request :: "string \<Rightarrow> string \<Rightarrow> osv_query" where
  "osv_request pkg ver = \<lparr>q_name = pkg, q_ecosystem = ''npm'', q_version = ver\<rparr>"

text \<open>
  The loop \<^verbatim>\<open>while (retries > 0)\<close> around \<^verbatim>\<open>axios.post\<close>, by recursion on \<open>retries\<close>.
  A response without a body throws inside the \<^verbatim>\<open>try\<close>; the \<^verbatim>\<open>catch\<close> clause then
  logs and leaves the loop, as for any failure that is not a retried 429.
\<close>

fun osv_loop :: "world \<Rightarrow> string \<Rightarrow> string \<Rightarrow> nat \<Rightarrow> run_state \<Rightarrow> run_state" where
  "osv_loop w pkg ver 0 st = st"
| "osv_loop w pkg ver (Suc n) st =
     (case http_post w (calls st) (osv_request pkg ver) of
        PostOk NoBody \<Rightarrow> request (HttpPost (osv_request pkg ver)) st
      | PostOk (Body vs) \<Rightarrow>
          record_vulns pkg ver (case vs of None \<Rightarrow> [] | Some l \<Rightarrow> l)
            (request (HttpPost (osv_request pkg ver)) st)
      | PostFail err \<Rightarrow>
          if has_status err 429 \<and> Suc n > 1
          then osv_loop w pkg ver n (emit (Delay 1000) (request (HttpPost (osv_request pkg ver)) st))
          else request (HttpPost (osv_request pkg ver)) st)"

text \<open>One turn of the loop \<^verbatim>\<open>for (const [pkg, versionRaw] of limitedDeps)\<close>.\<close>

definition check_dependency :: "world \<Rightarrow> run_state \<Rightarrow> string \<times> string \<Rightarrow> run_state" where
  "check_dependency w st dep =
     emit (Delay 200) (osv_loop w (fst dep) (normalize_version (snd dep)) 3 st)"

definition scan_deps :: "world \<Rightarrow> js_object \<Rightarrow> run_state \<Rightarrow> run_state" where
  "scan_deps w deps st = foldl (check_dependency w) st deps"

section \<open>The scan stage\<close>

definition failed :: "string \<Rightarrow> scan_result" where
  "failed msg = \<lparr>findings = [], error = Some msg\<rparr>"

text \<open>\<^verbatim>\<open>if (!repoUrl.endsWith("/")) repoUrl += "/"\<close>\<close>

definition with_slash :: "string \<Rightarrow> string" where
  "with_slash s = (if endsWith s ''/'' then s else s @ ''/'')"

text \<open>The raw-content address of the manifest; the branch defaults to \<^verbatim>\<open>main\<close>.\<close>

definition package_url :: "string \<times> string \<times> string option \<Rightarrow> string" where
  "package_url m =
     (case m of (owner, repo, branch) \<Rightarrow>
        ''https://raw.githubusercontent.com/'' @ owner @ ''/'' @ repo @ ''/''
          @ (case branch of None \<Rightarrow> ''main'' | Some b \<Rightarrow> b) @ ''/package.json'')"

text \<open>The part of \<^verbatim>\<open>healthTool.execute\<close> after the manifest fetch (lines 90 to 155).\<close>

definition scan_manifest ::
    "world \<Rightarrow> (string + manifest option) \<times> run_state \<Rightarrow> scan_result \<times> event list" where
  "scan_manifest w fetched =
     (case fetched of
        (Inl msg, st) \<Rightarrow> (failed msg, trace st)
      | (Inr None, st) \<Rightarrow> (failed ''Failed to fetch package.json after retries'', trace st)
      | (Inr (Some json), st) \<Rightarrow>
          (let deps = merged_dependencies json
           in if length deps = 0
              then (failed ''No dependencies found in package.json'', trace st)
              else
                (let st' = scan_deps w (limitedDeps deps) st
                 in (\<lparr>findings = found st',
                      error = (if length (found st') = 0
                               then Some ''No vulnerabilities found'' else None)\<rparr>,
                     trace st'))))"

text \<open>\<^verbatim>\<open>healthTool.execute\<close>: the result and the calls it made, in order.\<close>

definition execute :: "world \<Rightarrow> string \<Rightarrow> scan_result \<times> event list" where
  "execute w url =
     (if url = [] then (failed ''Missing or invalid repoUrl in input data'', [])
      else
        (let repoUrl = with_slash (sanitizeInput url)
         in case repo_match repoUrl of
              None \<Rightarrow> (failed (''Invalid GitHub repo URL: '' @ repoUrl), [])
            | Some m \<Rightarrow> scan_manifest w (fetch_loop w (package_url m) 3 init_state)))"

section \<open>The workflow\<close>

text \<open>The step \<^verbatim>\<open>scan-health-dependencies\<close>.\<close>

definition scanRepo :: "world \<Rightarrow> string \<Rightarrow> scan_result \<times> event list" where
  "scanRepo w url =
     (if url = [] then (failed ''Missing repoUrl in input data'', []) else execute w url)"

definition prompt_head :: string where
  "prompt_head = [CHR 0x0A]
     @ ''You are a cybersecurity analyst. Explain the following vulnerabilities in healthcare terms:''
     @ [CHR 0x0A, CHR 0x0A]"

definition prompt_tail :: string where
  "prompt_tail = [CHR 0x0A, CHR 0x0A]
     @ ''- Identify which ones relate to patient data or system availability.'' @ [CHR 0x0A]
     @ ''- Recommend how to patch or replace the packages.'' @ [CHR 0x0A]
     @ ''- Use clear, simple language a tech lead can understand.'' @ [CHR 0x0A]
     @ ''If no vulnerabilities are found, confirm the repository'' @ [CHR 0x27]
     @ ''s health and suggest enabling GitHub Advanced Security for continuous monitoring.''
     @ [CHR 0x0A]"

text \<open>
  The step \<^verbatim>\<open>summarize-security-issues\<close>, continuing the trace of the scan. The test
  \<^verbatim>\<open>if (inputData.error)\<close> is one of truthiness: an absent error and the empty string both
  fail it. An exception of the narrator is not caught: the step fails with it.
\<close>

definition explainVulnerabilities ::
    "world \<Rightarrow> scan_result \<Rightarrow> event list \<Rightarrow> (js_error + string) \<times> event list" where
  "explainVulnerabilities w inputData tr =
     (case error inputData of
        Some (c # cs) \<Rightarrow>
          (Inr (''Error occurred: '' @ (c # cs)
                @ ''. Please verify the repository URL or ensure package.json exists.''), tr)
      | _ \<Rightarrow>
          (let prompt = prompt_head @ stringify w (findings inputData) @ prompt_tail
           in case narrator w prompt of
                Inl e \<Rightarrow> (Inl e, tr @ [Narrate prompt])
              | Inr chunks \<Rightarrow> (Inr (concat chunks), tr @ [Narrate prompt])))"

text \<open>\<^verbatim>\<open>createWorkflow(...).then(scanRepo).then(explainVulnerabilities)\<close>\<close>

definition healthWorkflow :: "world \<Rightarrow> string \<Rightarrow> (js_error + string) \<times> event list" where
  "healthWorkflow w url =
     (case scanRepo w url of (result, tr) \<Rightarrow> explainVulnerabilities w result tr)"

section \<open>Notions used to state the properties\<close>

fun is_post :: "event \<Rightarrow> bool" where
  "is_post (HttpPost q) = True"
| "is_post e = False"

text \<open>A response that the catch clause of the lookup answers with a retry, if one is left.\<close>

definition rate_limited :: "post_result \<Rightarrow> bool" where
  "rate_limited r = (case r of PostOk b \<Rightarrow> False | PostFail err \<Rightarrow> has_status err 429)"

text \<open>The matches a response carries; a failure carries none.\<close>

definition vulns_of :: "post_result \<Rightarrow> vuln list" where
  "vulns_of r = (case r of PostOk (Body (Some vs)) \<Rightarrow> vs | _ \<Rightarrow> [])"

text \<open>
  The number of queries one dependency takes when its first query is call \<open>k\<close> of the run:
  one more after a 429, up to three.
\<close>

definition lookup_attempts :: "world \<Rightarrow> osv_query \<Rightarrow> nat \<Rightarrow> nat" where
  "lookup_attempts w q k =
     (if rate_limited (http_post w k q)
      then (if rate_limited (http_post w (Suc k) q) then 3 else 2)
      else 1)"

text \<open>The calls of \<open>n\<close> queries with the pause of one second between them.\<close>

definition attempts_trace :: "nat \<Rightarrow> osv_query \<Rightarrow> event list" where
  "attempts_trace n q = concat (replicate (n - 1) [HttpPost q, Delay 1000]) @ [HttpPost q]"

text \<open>
  Following the words of the specification: the declared version with its leading range
  markers stripped.
\<close>

definition strip_leading_markers :: "string \<Rightarrow> string" where
  "strip_leading_markers v = dropWhile (\<lambda>c. c = CHR ''^'' \<or> c = CHR ''~'') v"

text \<open>
  The response that ends the lookup of one dependency whose first query is call \<open>k\<close>: the
  first that is not a 429, or the third.
\<close>

definition deciding_response :: "world \<Rightarrow> osv_query \<Rightarrow> nat \<Rightarrow> post_result" where
  "deciding_response w q k = http_post w (k + lookup_attempts w q k - 1) q"

section \<open>Example runs\<close>

text \<open>
  A repository with eleven dependencies. The first query of the first dependency is
  answered with 429 and its second with two matches; the query of the second dependency
  fails with 500; every other query finds nothing.
\<close>

definition eleven_dependencies :: js_object where
  "eleven_dependencies =
     [(''alpha'', ''^1.0.0''), (''bravo'', ''~2.0.0''), (''charlie'', ''3.0.0''),
      (''delta'', ''^4.0.0''), (''echo'', ''5.0.0''), (''foxtrot'', ''6.0.0''),
      (''golf'', ''7.0.0''), (''hotel'', ''8.0.0''), (''india'', ''9.0.0''),
      (''juliett'', ''10.0.0''), (''kilo'', ''11.0.0'')]"

definition busy_manifest :: manifest where
  "busy_manifest = \<lparr>dependencies = Some (take 6 eleven_dependencies),
                     devDependencies = Some (drop 6 eleven_dependencies)\<rparr>"

definition two_vulns :: "vuln list" where
  "two_vulns = [\<lparr>vuln_id = ''GHSA-1'', vuln_summary = Some ''Prototype pollution''\<rparr>,
                \<lparr>vuln_id = ''CVE-2'', vuln_summary = None\<rparr>]"

definition busy_world :: world where
  "busy_world =
     \<lparr>http_get = (\<lambda>k u. GetOk (Some busy_manifest)),
      http_post = (\<lambda>k q.
         if k = 1 then PostFail (AxiosError (Some (429, None)) ''Request failed with status code 429'')
         else if k = 2 then PostOk (Body (Some two_vulns))
         else if k = 3 then PostFail (AxiosError (Some (500, None)) ''Request failed with status code 500'')
         else PostOk (Body None)),
      stringify = (\<lambda>fs. ''[ ]''),
      narrator = (\<lambda>p. Inr [''Upgrade '', ''alpha.''])\<rparr>"

text \<open>The state of that run after the manifest fetch, and after the first dependency.\<close>

definition after_fetch :: run_state where
  "after_fetch = \<lparr>trace = [HttpGet ''https://raw.githubusercontent.com/acme/app/main/package.json''],
                   calls = 1, found = []\<rparr>"

definition after_alpha :: run_state where
  "after_alpha = check_dependency busy_world after_fetch (''alpha'', ''^1.0.0'')"

text \<open>
  A repository whose manifest declares one dependency for which the vulnerability
  database knows nothing; the narrator would answer with two chunks.
\<close>

definition healthy_world :: world where
  "healthy_world =
     \<lparr>http_get = (\<lambda>k u. GetOk (Some \<lparr>dependencies = Some [(''left-pad'', ''^1.3.0'')],
                                        devDependencies = None\<rparr>)),
      http_post = (\<lambda>k q. PostOk (Body None)),
      stringify = (\<lambda>fs. ''[]''),
      narrator = (\<lambda>p. Inr [''The repository '', ''is healthy.''])\<rparr>"

text \<open>
  A manifest address that answers every request with 504, and one that answers with 404.
\<close>

definition gateway_timeout :: js_error where
  "gateway_timeout = AxiosError (Some (504, None)) ''Request failed with status code 504''"

definition timeout_world :: world where
  "timeout_world =
     \<lparr>http_get = (\<lambda>k u. GetFail gateway_timeout),
      http_post = (\<lambda>k q. PostOk (Body None)),
      stringify = (\<lambda>fs. ''[]''),
      narrator = (\<lambda>p. Inr [''The repository is healthy.''])\<rparr>"

definition missing_world :: world where
  "missing_world =
     \<lparr>http_get = (\<lambda>k u. GetFail (AxiosError (Some (404, None)) ''Request failed with status code 404'')),
      http_post = (\<lambda>k q. PostOk (Body None)),
      stringify = (\<lambda>fs. ''[]''),
      narrator = (\<lambda>p. Inr [''The repository is healthy.''])\<rparr>"

section \<open>The lookup of one dependency and the loop over the dependencies\<close>

lemma osv_loop_3:
  "osv_loop w pkg ver 3 st =
     record_vulns pkg ver
       (vulns_of (http_post w (calls st + lookup_attempts w (osv_request pkg ver) (calls st) - 1) (osv_request pkg ver)))
       (st\<lparr>trace := trace st @ attempts_trace (lookup_attempts w (osv_request pkg ver) (calls st)) (osv_request pkg ver),
           calls := calls st + lookup_attempts w (osv_request pkg ver) (calls st)\<rparr>)"
  by (auto simp: numeral_3_eq_3 lookup_attempts_def rate_limited_def vulns_of_def request_def
      emit_def record_vulns_def attempts_trace_def
      split: post_result.splits osv_body.splits option.splits)

lemma lookup_attempts_bounds: "1 \<le> lookup_attempts w q k \<and> lookup_attempts w q k \<le> 3"
  by (simp add: lookup_attempts_def)

lemma trace_record_vulns: "trace (record_vulns pkg ver vs st) = trace st"
  by (simp add: record_vulns_def)

lemma calls_record_vulns: "calls (record_vulns pkg ver vs st) = calls st"
  by (simp add: record_vulns_def)

lemma found_record_vulns:
  "found (record_vulns pkg ver vs st) =
     found st @ (case vs of [] \<Rightarrow> []
       | v # vs' \<Rightarrow> [\<lparr>package = pkg, version = ver, cves = map vuln_id (v # vs'),
                      summary = js_or (vuln_summary v) ''No summary''\<rparr>])"
  by (simp add: record_vulns_def split: list.splits)

lemma trace_osv_loop:
  "trace (osv_loop w pkg ver 3 st) =
     trace st @ attempts_trace (lookup_attempts w (osv_request pkg ver) (calls st)) (osv_request pkg ver)"
  by (simp add: osv_loop_3 trace_record_vulns)

lemma found_osv_loop:
  "found (osv_loop w pkg ver 3 st) =
     found (record_vulns pkg ver (vulns_of (deciding_response w (osv_request pkg ver) (calls st))) st)"
  by (simp add: osv_loop_3 record_vulns_def deciding_response_def)

lemma posts_retries:
  "filter is_post (concat (replicate m [HttpPost q, Delay 1000])) = replicate m (HttpPost q)"
  by (induction m) simp_all

lemma posts_attempts_trace:
  "filter is_post (attempts_trace n q) = replicate (Suc (n - 1)) (HttpPost q)"
  by (simp add: attempts_trace_def posts_retries replicate_append_same)

lemma count_delay_retries:
  "count_list (concat (replicate m [HttpPost q, Delay 1000])) (Delay 200) = 0"
  by (induction m) simp_all

lemma count_delay_attempts_trace: "count_list (attempts_trace n q) (Delay 200) = 0"
  by (simp add: attempts_trace_def count_delay_retries)

lemma post_of_attempts_trace: "HttpPost q' \<in> set (attempts_trace n q) \<Longrightarrow> q' = q"
  by (auto simp: attempts_trace_def split: if_splits)

lemma trace_check_dependency:
  "trace (check_dependency w st dep) =
     trace st @ attempts_trace (lookup_attempts w (osv_request (fst dep) (normalize_version (snd dep))) (calls st))
        (osv_request (fst dep) (normalize_version (snd dep))) @ [Delay 200]"
  by (simp add: check_dependency_def emit_def trace_osv_loop)

lemma found_check_dependency:
  "found (check_dependency w st dep) =
     found (record_vulns (fst dep) (normalize_version (snd dep))
       (vulns_of (http_post w (calls st + lookup_attempts w (osv_request (fst dep) (normalize_version (snd dep))) (calls st) - 1)
          (osv_request (fst dep) (normalize_version (snd dep))))) st)"
  by (simp add: check_dependency_def emit_def osv_loop_3 record_vulns_def)

lemma length_found_check_dependency:
  "length (found (check_dependency w st dep)) \<le> Suc (length (found st))"
  by (simp add: found_check_dependency found_record_vulns split: list.splits)

lemma scan_deps_Cons: "scan_deps w (dep # deps) st = scan_deps w deps (check_dependency w st dep)"
  by (simp add: scan_deps_def)

lemma scan_deps_Nil: "scan_deps w [] st = st"
  by (simp add: scan_deps_def)

lemma length_found_scan_deps:
  "length (found (scan_deps w deps st)) \<le> length (found st) + length deps"
proof (induction deps arbitrary: st)
  case Nil
  show ?case by (simp add: scan_deps_Nil)
next
  case (Cons dep deps)
  have "length (found (scan_deps w deps (check_dependency w st dep)))
          \<le> length (found (check_dependency w st dep)) + length deps"
    by (rule Cons.IH)
  also have "\<dots> \<le> Suc (length (found st)) + length deps"
    using length_found_check_dependency [of w st dep] by simp
  finally show ?case by (simp add: scan_deps_Cons)
qed

lemma count_delay_scan_deps:
  "count_list (trace (scan_deps w deps st)) (Delay 200) = count_list (trace st) (Delay 200) + length deps"
proof (induction deps arbitrary: st)
  case Nil
  show ?case by (simp add: scan_deps_Nil)
next
  case (Cons dep deps)
  show ?case
    by (simp add: scan_deps_Cons Cons.IH trace_check_dependency count_delay_attempts_trace)
qed

lemma posts_scan_deps:
  "\<exists>ns. length ns = length deps \<and> (\<forall>n \<in> set ns. 1 \<le> n \<and> n \<le> 3) \<and>
     filter is_post (trace (scan_deps w deps st)) =
       filter is_post (trace st) @
       concat (map (\<lambda>(n, d). replicate n (HttpPost (osv_request (fst d) (normalize_version (snd d)))))
                 (zip ns deps))"
proof (induction deps arbitrary: st)
  case Nil
  show ?case by (simp add: scan_deps_Nil)
next
  case (Cons dep deps)
  let ?q = "osv_request (fst dep) (normalize_version (snd dep))"
  let ?n = "lookup_attempts w ?q (calls st)"
  obtain ns where ns: "length ns = length deps" "\<forall>n \<in> set ns. 1 \<le> n \<and> n \<le> 3"
    "filter is_post (trace (scan_deps w deps (check_dependency w st dep))) =
       filter is_post (trace (check_dependency w st dep)) @
       concat (map (\<lambda>(n, d). replicate n (HttpPost (osv_request (fst d) (normalize_version (snd d)))))
                 (zip ns deps))"
    using Cons.IH [of "check_dependency w st dep"] by blast
  have n: "1 \<le> ?n \<and> ?n \<le> 3" by (rule lookup_attempts_bounds)
  then have "Suc (?n - 1) = ?n" by simp
  then have "filter is_post (trace (check_dependency w st dep)) =
      filter is_post (trace st) @ replicate ?n (HttpPost ?q)"
    by (simp add: trace_check_dependency posts_attempts_trace)
  with ns n have "length (?n # ns) = length (dep # deps) \<and> (\<forall>n \<in> set (?n # ns). 1 \<le> n \<and> n \<le> 3) \<and>
     filter is_post (trace (scan_deps w (dep # deps) st)) =
       filter is_post (trace st) @
       concat (map (\<lambda>(n, d). replicate n (HttpPost (osv_request (fst d) (normalize_version (snd d)))))
                 (zip (?n # ns) (dep # deps)))"
    by (simp add: scan_deps_Cons)
  then show ?case by blast
qed

lemma fetch_loop_keeps:
  "found (snd (fetch_loop w u n st)) = found st \<and>
   count_list (trace (snd (fetch_loop w u n st))) (Delay 200) = count_list (trace st) (Delay 200) \<and>
   filter is_post (trace (snd (fetch_loop w u n st))) = filter is_post (trace st)"
  by (induction n arbitrary: st) (simp_all add: request_def emit_def split: get_result.splits)

lemma length_limitedDeps: "length (limitedDeps deps) \<le> 10"
  by (simp add: limitedDeps_def)

section \<open>The findings of a run\<close>

lemma scan_manifest_bound:
  assumes "found st = []" and "count_list (trace st) (Delay 200) = 0"
  shows "length (findings (fst (scan_manifest w (r, st)))) \<le> count_list (snd (scan_manifest w (r, st))) (Delay 200)
     \<and> count_list (snd (scan_manifest w (r, st))) (Delay 200) \<le> 10"
proof (cases r)
  case (Inl msg)
  then show ?thesis using assms by (simp add: scan_manifest_def failed_def)
next
  case (Inr body)
  show ?thesis
  proof (cases body)
    case None
    with Inr show ?thesis using assms by (simp add: scan_manifest_def failed_def)
  next
    case (Some json)
    let ?deps = "limitedDeps (merged_dependencies json)"
    have "length (found (scan_deps w ?deps st)) \<le> length ?deps"
      using length_found_scan_deps [of w ?deps st] assms by simp
    moreover have "count_list (trace (scan_deps w ?deps st)) (Delay 200) = length ?deps"
      using count_delay_scan_deps [of w ?deps st] assms by simp
    moreover have "length ?deps \<le> 10" by (rule length_limitedDeps)
    ultimately show ?thesis using Inr Some assms
      by (simp add: scan_manifest_def failed_def Let_def)
  qed
qed

text \<open>
  Claim C9. Every run of the scan stage returns at most as many findings as it processed
  dependency entries, and it processes at most 10. An entry is processed by one turn of
  the loop over \<^verbatim>\<open>limitedDeps\<close>, and every turn ends with the pause of 200 milliseconds,
  which nothing else in the run makes: the turns are the \<open>Delay 200\<close> events of the trace.
\<close>

theorem findings_bounded_by_processed:
  "length (findings (fst (scanRepo w url))) \<le> count_list (snd (scanRepo w url)) (Delay 200)
   \<and> count_list (snd (scanRepo w url)) (Delay 200) \<le> 10"
proof (cases "url = []")
  case True
  then show ?thesis by (simp add: scanRepo_def failed_def)
next
  case False
  show ?thesis
  proof (cases "repo_match (with_slash (sanitizeInput url))")
    case None
    with False show ?thesis by (simp add: scanRepo_def execute_def failed_def)
  next
    case (Some m)
    obtain r st where f: "fetch_loop w (package_url m) 3 init_state = (r, st)"
      by (cases "fetch_loop w (package_url m) 3 init_state")
    have "found st = [] \<and> count_list (trace st) (Delay 200) = 0"
      using fetch_loop_keeps [of w "package_url m" 3 init_state] f by (simp add: init_state_def)
    then have "length (findings (fst (scan_manifest w (r, st)))) \<le> count_list (snd (scan_manifest w (r, st))) (Delay 200)
     \<and> count_list (snd (scan_manifest w (r, st))) (Delay 200) \<le> 10"
      using scan_manifest_bound by blast
    with False Some f show ?thesis by (simp add: scanRepo_def execute_def)
  qed
qed



section \<open>Retries of the vulnerability query\<close>

lemma retries_follow_429:
  "i + 1 < lookup_attempts w q k \<Longrightarrow> rate_limited (http_post w (k + i) q)"
  by (cases i; cases "i - 1") (auto simp: lookup_attempts_def split: if_splits)

lemma early_end_not_429:
  "lookup_attempts w q k < 3 \<Longrightarrow> \<not> rate_limited (deciding_response w q k)"
  by (auto simp: lookup_attempts_def deciding_response_def split: if_splits)

lemma trace_check_dependency_mono: "set (trace st) \<subseteq> set (trace (check_dependency w st dep))"
  by (auto simp: trace_check_dependency)

lemma post_in_check_dependency:
  "HttpPost (osv_request (fst dep) (normalize_version (snd dep))) \<in> set (trace (check_dependency w st dep))"
  by (simp add: trace_check_dependency attempts_trace_def)

lemma trace_scan_deps_mono: "set (trace st) \<subseteq> set (trace (scan_deps w deps st))"
proof (induction deps arbitrary: st)
  case Nil
  show ?case by (simp add: scan_deps_Nil)
next
  case (Cons dep deps)
  have "set (trace st) \<subseteq> set (trace (check_dependency w st dep))"
    by (rule trace_check_dependency_mono)
  also have "\<dots> \<subseteq> set (trace (scan_deps w deps (check_dependency w st dep)))"
    by (rule Cons.IH)
  finally show ?case by (simp add: scan_deps_Cons)
qed

lemma every_dependency_queried:
  "d \<in> set deps \<Longrightarrow>
     HttpPost (osv_request (fst d) (normalize_version (snd d))) \<in> set (trace (scan_deps w deps st))"
proof (induction deps arbitrary: st)
  case Nil
  then show ?case by simp
next
  case (Cons dep deps)
  show ?case
  proof (cases "d = dep")
    case True
    then show ?thesis
      using post_in_check_dependency [of dep w st]
        trace_scan_deps_mono [of "check_dependency w st dep" w deps]
      by (auto simp: scan_deps_Cons)
  next
    case False
    with Cons.prems have "d \<in> set deps" by simp
    then show ?thesis by (simp add: scan_deps_Cons Cons.IH)
  qed
qed

text \<open>
  Claim C8. The lookup of one dependency makes between one and three queries, with a pause
  of one second before each retry. Every query but the last was answered with 429; when
  there are fewer than three, the last was not: the first response that is not a 429, a
  success or a failure, ends the lookup. When the lookup ends with a failure, the findings
  are as before, and the loop goes on with the next dependency from the state the failed
  lookup left: every later dependency is still queried.
\<close>

theorem rate_limit_retries_and_failures:
  "trace (osv_loop w pkg ver 3 st) =
      trace st @ attempts_trace (lookup_attempts w (osv_request pkg ver) (calls st)) (osv_request pkg ver)
   \<and> 1 \<le> lookup_attempts w (osv_request pkg ver) (calls st)
   \<and> lookup_attempts w (osv_request pkg ver) (calls st) \<le> 3
   \<and> (\<forall>i. i + 1 < lookup_attempts w (osv_request pkg ver) (calls st) \<longrightarrow>
          rate_limited (http_post w (calls st + i) (osv_request pkg ver)))
   \<and> (lookup_attempts w (osv_request pkg ver) (calls st) < 3 \<longrightarrow>
          \<not> rate_limited (deciding_response w (osv_request pkg ver) (calls st)))
   \<and> (\<not> rate_limited (http_post w (calls st) (osv_request pkg ver)) \<longrightarrow>
          lookup_attempts w (osv_request pkg ver) (calls st) = 1)
   \<and> (rate_limited (http_post w (calls st) (osv_request pkg ver))
        \<and> \<not> rate_limited (http_post w (Suc (calls st)) (osv_request pkg ver)) \<longrightarrow>
          lookup_attempts w (osv_request pkg ver) (calls st) = 2)
   \<and> (\<forall>err. deciding_response w (osv_request pkg ver) (calls st) = PostFail err \<longrightarrow>
          found (osv_loop w pkg ver 3 st) = found st)
   \<and> scan_deps w (dep # deps) st = scan_deps w deps (check_dependency w st dep)
   \<and> (\<forall>d \<in> set deps.
          HttpPost (osv_request (fst d) (normalize_version (snd d))) \<in> set (trace (scan_deps w deps st)))"
  using lookup_attempts_bounds [of w "osv_request pkg ver" "calls st"]
proof (intro conjI)
  show "trace (osv_loop w pkg ver 3 st) =
      trace st @ attempts_trace (lookup_attempts w (osv_request pkg ver) (calls st)) (osv_request pkg ver)"
    by (rule trace_osv_loop)
  show "1 \<le> lookup_attempts w (osv_request pkg ver) (calls st)"
    using lookup_attempts_bounds [of w "osv_request pkg ver" "calls st"] by (rule conjunct1)
  show "lookup_attempts w (osv_request pkg ver) (calls st) \<le> 3"
    using lookup_attempts_bounds [of w "osv_request pkg ver" "calls st"] by (rule conjunct2)
  show "\<forall>i. i + 1 < lookup_attempts w (osv_request pkg ver) (calls st) \<longrightarrow>
          rate_limited (http_post w (calls st + i) (osv_request pkg ver))"
    using retries_follow_429 [of _ w "osv_request pkg ver" "calls st"] by blast
  show "lookup_attempts w (osv_request pkg ver) (calls st) < 3 \<longrightarrow>
          \<not> rate_limited (deciding_response w (osv_request pkg ver) (calls st))"
    using early_end_not_429 [of w "osv_request pkg ver" "calls st"] by blast
  show "\<not> rate_limited (http_post w (calls st) (osv_request pkg ver)) \<longrightarrow>
          lookup_attempts w (osv_request pkg ver) (calls st) = 1"
    by (simp add: lookup_attempts_def)
  show "rate_limited (http_post w (calls st) (osv_request pkg ver))
        \<and> \<not> rate_limited (http_post w (Suc (calls st)) (osv_request pkg ver)) \<longrightarrow>
          lookup_attempts w (osv_request pkg ver) (calls st) = 2"
    by (simp add: lookup_attempts_def)
  show "\<forall>err. deciding_response w (osv_request pkg ver) (calls st) = PostFail err \<longrightarrow>
          found (osv_loop w pkg ver 3 st) = found st"
    by (simp add: found_osv_loop vulns_of_def record_vulns_def)
  show "scan_deps w (dep # deps) st = scan_deps w deps (check_dependency w st dep)"
    by (rule scan_deps_Cons)
  show "\<forall>d \<in> set deps.
          HttpPost (osv_request (fst d) (normalize_version (snd d))) \<in> set (trace (scan_deps w deps st))"
    using every_dependency_queried [of _ deps w st] by blast
qed

text \<open>
  In the example run \<open>alpha\<close> is queried twice (429, then a success) and \<open>bravo\<close> once (a
  failure with status 500 that leaves the findings as they were); \<open>charlie\<close> is queried
  after it.
\<close>

theorem rate_limit_retries_and_failures_witness:
  "rate_limited (http_post busy_world 1 (osv_request ''alpha'' ''1.0.0''))
   \<and> lookup_attempts busy_world (osv_request ''alpha'' ''1.0.0'') 1 = 2
   \<and> trace (osv_loop busy_world ''alpha'' ''1.0.0'' 3 after_fetch) =
       [HttpGet ''https://raw.githubusercontent.com/acme/app/main/package.json'',
        HttpPost (osv_request ''alpha'' ''1.0.0''), Delay 1000, HttpPost (osv_request ''alpha'' ''1.0.0'')]
   \<and> \<not> rate_limited (deciding_response busy_world (osv_request ''alpha'' ''1.0.0'') 1)
   \<and> deciding_response busy_world (osv_request ''bravo'' ''2.0.0'') 3 =
       PostFail (AxiosError (Some (500, None)) ''Request failed with status code 500'')
   \<and> lookup_attempts busy_world (osv_request ''bravo'' ''2.0.0'') 3 = 1
   \<and> found (osv_loop busy_world ''bravo'' ''2.0.0'' 3 after_alpha) = found after_alpha
   \<and> HttpPost (osv_request ''charlie'' ''3.0.0'')
        \<in> set (trace (scan_deps busy_world [(''bravo'', ''~2.0.0''), (''charlie'', ''3.0.0'')] after_alpha))"
proof -
  note a = rate_limit_retries_and_failures
    [of busy_world "''alpha''" "''1.0.0''" after_fetch "(''alpha'', ''^1.0.0'')" "[]"]
  note b = rate_limit_retries_and_failures
    [of busy_world "''bravo''" "''2.0.0''" after_alpha "(''alpha'', ''^1.0.0'')"
        "[(''bravo'', ''~2.0.0''), (''charlie'', ''3.0.0'')]"]
  have c1: "calls after_fetch = 1"
    by (simp add: after_fetch_def)
  have c3: "calls after_alpha = 3"
    by code_simp
  have r1: "rate_limited (http_post busy_world 1 (osv_request ''alpha'' ''1.0.0''))"
    by code_simp
  have r2: "\<not> rate_limited (http_post busy_world (Suc 1) (osv_request ''alpha'' ''1.0.0''))"
    by code_simp
  have n: "lookup_attempts busy_world (osv_request ''alpha'' ''1.0.0'') 1 = 2"
    using a [THEN conjunct2, THEN conjunct2, THEN conjunct2, THEN conjunct2, THEN conjunct2, THEN conjunct2, THEN conjunct1] r1 r2 by (simp add: c1)
  have tr: "trace (osv_loop busy_world ''alpha'' ''1.0.0'' 3 after_fetch) =
       [HttpGet ''https://raw.githubusercontent.com/acme/app/main/package.json'',
        HttpPost (osv_request ''alpha'' ''1.0.0''), Delay 1000, HttpPost (osv_request ''alpha'' ''1.0.0'')]"
  proof -
    have "trace (osv_loop busy_world ''alpha'' ''1.0.0'' 3 after_fetch) =
        trace after_fetch @ attempts_trace 2 (osv_request ''alpha'' ''1.0.0'')"
      using a [THEN conjunct1] by (simp only: c1 n)
    then show ?thesis
      by (simp add: attempts_trace_def after_fetch_def)
  qed
  have d1: "\<not> rate_limited (deciding_response busy_world (osv_request ''alpha'' ''1.0.0'') 1)"
    using a [THEN conjunct2, THEN conjunct2, THEN conjunct2, THEN conjunct2, THEN conjunct1] n by (simp add: c1)
  have r3: "\<not> rate_limited (http_post busy_world 3 (osv_request ''bravo'' ''2.0.0''))"
    by code_simp
  have m: "lookup_attempts busy_world (osv_request ''bravo'' ''2.0.0'') 3 = 1"
    using b [THEN conjunct2, THEN conjunct2, THEN conjunct2, THEN conjunct2, THEN conjunct2, THEN conjunct1] r3 by (simp add: c3)
  have d3: "deciding_response busy_world (osv_request ''bravo'' ''2.0.0'') 3 =
       PostFail (AxiosError (Some (500, None)) ''Request failed with status code 500'')"
    by code_simp
  have f: "found (osv_loop busy_world ''bravo'' ''2.0.0'' 3 after_alpha) = found after_alpha"
    using b [THEN conjunct2, THEN conjunct2, THEN conjunct2, THEN conjunct2, THEN conjunct2, THEN conjunct2, THEN conjunct2, THEN conjunct1] d3 by (simp add: c3)
  have q: "HttpPost (osv_request ''charlie'' ''3.0.0'')
        \<in> set (trace (scan_deps busy_world [(''bravo'', ''~2.0.0''), (''charlie'', ''3.0.0'')] after_alpha))"
  proof -
    have "HttpPost (osv_request (fst (''charlie'', ''3.0.0'')) (normalize_version (snd (''charlie'', ''3.0.0''))))
              \<in> set (trace (scan_deps busy_world [(''bravo'', ''~2.0.0''), (''charlie'', ''3.0.0'')] after_alpha))"
      using b [THEN conjunct2, THEN conjunct2, THEN conjunct2, THEN conjunct2, THEN conjunct2, THEN conjunct2, THEN conjunct2, THEN conjunct2, THEN conjunct2] by (rule bspec) simp
    moreover have "normalize_version ''3.0.0'' = ''3.0.0''"
      by code_simp
    ultimately show ?thesis by simp
  qed
  show ?thesis
    by (intro conjI) (rule r1 n tr d1 d3 m f q)+
qed

section \<open>The cap on the dependencies\<close>

lemma map_fst_overwrite: "map fst (overwrite k v obj) = map fst obj"
  by (induction obj) auto

lemma set_fst_insert_index: "fst ` set (insert_index k v obj) = insert k (fst ` set obj)"
  by (induction obj) force+

lemma distinct_insert_index:
  "distinct (map fst obj) \<Longrightarrow> k \<notin> fst ` set obj \<Longrightarrow> distinct (map fst (insert_index k v obj))"
  by (induction obj) (auto simp: set_fst_insert_index)

lemma distinct_js_put: "distinct (map fst obj) \<Longrightarrow> distinct (map fst (js_put obj kv))"
  by (auto simp: js_put_def map_fst_overwrite distinct_insert_index)

lemma distinct_foldl_js_put:
  "distinct (map fst obj) \<Longrightarrow> distinct (map fst (foldl js_put obj ps))"
  by (induction ps arbitrary: obj) (simp_all add: distinct_js_put)

lemma distinct_merged_dependencies: "distinct (map fst (merged_dependencies json))"
  by (simp add: merged_dependencies_def spread_def distinct_foldl_js_put)

lemma posts_scan_deps_names:
  "HttpPost q \<in> set (trace (scan_deps w deps st)) \<Longrightarrow>
     HttpPost q \<in> set (trace st) \<or> q_name q \<in> set (map fst deps)"
proof (induction deps arbitrary: st)
  case Nil
  then show ?case by (simp add: scan_deps_Nil)
next
  case (Cons dep deps)
  from Cons.prems have "HttpPost q \<in> set (trace (check_dependency w st dep)) \<or> q_name q \<in> set (map fst deps)"
    using Cons.IH [of "check_dependency w st dep"] by (simp add: scan_deps_Cons)
  then show ?case
    by (auto simp: trace_check_dependency osv_request_def dest!: post_of_attempts_trace)
qed

lemma no_post_without_filter: "filter is_post tr = [] \<Longrightarrow> HttpPost q \<notin> set tr"
  by (induction tr) (auto split: if_splits)

text \<open>
  Claim C5. When the manifest has been fetched and its merged dependency map has more than
  10 entries, the queries of the run are those of its first 10 entries in iteration order,
  each entry queried between one and three times in a row, and no query names an entry
  beyond the tenth.
\<close>

theorem first_ten_dependencies_queried:
  assumes url: "url \<noteq> []"
    and m: "repo_match (with_slash (sanitizeInput url)) = Some m"
    and fetched: "fetch_loop w (package_url m) 3 init_state = (Inr (Some json), st)"
    and more: "length (merged_dependencies json) > 10"
  shows "(\<exists>ns. length ns = 10 \<and> (\<forall>n \<in> set ns. 1 \<le> n \<and> n \<le> 3) \<and>
            filter is_post (snd (scanRepo w url)) =
              concat (map (\<lambda>(n, d). replicate n (HttpPost (osv_request (fst d) (normalize_version (snd d)))))
                        (zip ns (take 10 (merged_dependencies json)))))
       \<and> (\<forall>d \<in> set (drop 10 (merged_dependencies json)).
            \<forall>q. HttpPost q \<in> set (snd (scanRepo w url)) \<longrightarrow> q_name q \<noteq> fst d)"
proof -
  let ?deps = "merged_dependencies json"
  have run: "snd (scanRepo w url) = trace (scan_deps w (take 10 ?deps) st)"
    using url m fetched more
    by (auto simp: scanRepo_def execute_def scan_manifest_def limitedDeps_def Let_def)
  have quiet: "filter is_post (trace st) = []"
    using fetch_loop_keeps [of w "package_url m" 3 init_state] fetched
    by (simp add: init_state_def)
  obtain ns where ns: "length ns = length (take 10 ?deps)" "\<forall>n \<in> set ns. 1 \<le> n \<and> n \<le> 3"
    "filter is_post (trace (scan_deps w (take 10 ?deps) st)) =
       filter is_post (trace st) @
       concat (map (\<lambda>(n, d). replicate n (HttpPost (osv_request (fst d) (normalize_version (snd d)))))
                 (zip ns (take 10 ?deps)))"
    using posts_scan_deps [of "take 10 ?deps" w st] by blast
  have len: "length (take 10 ?deps) = 10"
    using more by simp
  have first: "\<exists>ns. length ns = 10 \<and> (\<forall>n \<in> set ns. 1 \<le> n \<and> n \<le> 3) \<and>
            filter is_post (snd (scanRepo w url)) =
              concat (map (\<lambda>(n, d). replicate n (HttpPost (osv_request (fst d) (normalize_version (snd d)))))
                        (zip ns (take 10 ?deps)))"
  proof (intro exI conjI)
    show "length ns = 10"
      using ns(1) len by simp
    show "\<forall>n \<in> set ns. 1 \<le> n \<and> n \<le> 3"
      by (rule ns(2))
    show "filter is_post (snd (scanRepo w url)) =
              concat (map (\<lambda>(n, d). replicate n (HttpPost (osv_request (fst d) (normalize_version (snd d)))))
                        (zip ns (take 10 ?deps)))"
      unfolding run ns(3) quiet by simp
  qed
  have beyond: "q_name q \<noteq> fst d"
    if d: "d \<in> set (drop 10 ?deps)" and q: "HttpPost q \<in> set (snd (scanRepo w url))" for d q
  proof -
    from q have early: "q_name q \<in> set (map fst (take 10 ?deps))"
      using posts_scan_deps_names [of q w "take 10 ?deps" st] no_post_without_filter [OF quiet, of q]
      by (simp add: run)
    have "distinct (map fst (take 10 ?deps) @ map fst (drop 10 ?deps))"
      using distinct_merged_dependencies [of json] by (simp flip: map_append)
    then have apart: "set (map fst (take 10 ?deps)) \<inter> set (map fst (drop 10 ?deps)) = {}"
      by (simp only: distinct_append)
    from d have late: "fst d \<in> set (map fst (drop 10 ?deps))"
      by simp
    show ?thesis
    proof
      assume "q_name q = fst d"
      with early late have "fst d \<in> set (map fst (take 10 ?deps)) \<inter> set (map fst (drop 10 ?deps))"
        by (simp only: Int_iff)
      with apart show False
        by (simp only: empty_iff)
    qed
  qed
  show ?thesis
  proof (intro conjI ballI allI impI)
    show "\<exists>ns. length ns = 10 \<and> (\<forall>n \<in> set ns. 1 \<le> n \<and> n \<le> 3) \<and>
            filter is_post (snd (scanRepo w url)) =
              concat (map (\<lambda>(n, d). replicate n (HttpPost (osv_request (fst d) (normalize_version (snd d)))))
                        (zip ns (take 10 ?deps)))"
      by (rule first)
  next
    fix d q
    assume "d \<in> set (drop 10 ?deps)" and "HttpPost q \<in> set (snd (scanRepo w url))"
    then show "q_name q \<noteq> fst d" by (rule beyond)
  qed
qed

text \<open>
  The example manifest has eleven entries; the eleventh, \<open>kilo\<close>, is never queried.
\<close>

theorem first_ten_dependencies_queried_witness:
  "length (merged_dependencies busy_manifest) = 11
   \<and> (\<exists>ns. length ns = 10 \<and>
         filter is_post (snd (scanRepo busy_world ''https://github.com/acme/app'')) =
           concat (map (\<lambda>(n, d). replicate n (HttpPost (osv_request (fst d) (normalize_version (snd d)))))
                     (zip ns (take 10 (merged_dependencies busy_manifest)))))
   \<and> HttpPost (osv_request ''kilo'' ''11.0.0'') \<notin> set (snd (scanRepo busy_world ''https://github.com/acme/app''))"
proof -
  have h1: "''https://github.com/acme/app'' \<noteq> []"
    by simp
  have h2: "repo_match (with_slash (sanitizeInput ''https://github.com/acme/app'')) = Some (''acme'', ''app'', None)"
    by code_simp
  have h3: "fetch_loop busy_world (package_url (''acme'', ''app'', None)) 3 init_state = (Inr (Some busy_manifest), after_fetch)"
    by code_simp
  have len: "length (merged_dependencies busy_manifest) = 11"
    by code_simp
  then have h4: "length (merged_dependencies busy_manifest) > 10"
    by simp
  note t = first_ten_dependencies_queried [OF h1 h2 h3 h4]
  from t [THEN conjunct1] obtain ns where ns: "length ns = 10"
    "filter is_post (snd (scanRepo busy_world ''https://github.com/acme/app'')) =
           concat (map (\<lambda>(n, d). replicate n (HttpPost (osv_request (fst d) (normalize_version (snd d)))))
                     (zip ns (take 10 (merged_dependencies busy_manifest))))"
    by auto
  have late: "(''kilo'', ''11.0.0'') \<in> set (drop 10 (merged_dependencies busy_manifest))"
    by code_simp
  have "HttpPost (osv_request ''kilo'' ''11.0.0'') \<in> set (snd (scanRepo busy_world ''https://github.com/acme/app''))
      \<longrightarrow> q_name (osv_request ''kilo'' ''11.0.0'') \<noteq> fst (''kilo'', ''11.0.0'')"
    using t [THEN conjunct2, THEN bspec, OF late, THEN spec, of "osv_request ''kilo'' ''11.0.0''"] .
  then have "HttpPost (osv_request ''kilo'' ''11.0.0'') \<notin> set (snd (scanRepo busy_world ''https://github.com/acme/app''))"
    by (simp add: osv_request_def)
  with len ns show ?thesis by blast
qed

section \<open>The version sent to the vulnerability database\<close>

text \<open>
  Claim C7, as stated, fails: the code deletes a marker that is not leading. For the
  declared range \<^verbatim>\<open>1.0.0 || ^2.0.0\<close>, which has no leading marker, the version sent is
  \<^verbatim>\<open>1.0.0 || 2.0.0\<close>.
\<close>

theorem version_markers_counterexample:
  "normalize_version ''1.0.0 || ^2.0.0'' = ''1.0.0 || 2.0.0''
   \<and> strip_leading_markers ''1.0.0 || ^2.0.0'' = ''1.0.0 || ^2.0.0''
   \<and> normalize_version ''1.0.0 || ^2.0.0'' \<noteq> strip_leading_markers ''1.0.0 || ^2.0.0''"
  by code_simp

text \<open>
  Claim C7, amended. Every query of a dependency carries the package name, the ecosystem
  \<^verbatim>\<open>npm\<close> and the declared version with its first \<^verbatim>\<open>^\<close> and then its first \<^verbatim>\<open>~\<close>
  deleted. For a declared version that is one leading marker (or one of each) followed by
  text without markers, this is the declared version with its leading markers stripped; a
  first \<^verbatim>\<open>^\<close> that is not leading is deleted as well. In particular \<^verbatim>\<open>^2.1.0\<close> gives
  \<^verbatim>\<open>2.1.0\<close> and \<^verbatim>\<open>~1.0.3\<close> gives \<^verbatim>\<open>1.0.3\<close>.
\<close>

theorem lookup_version_normalised:
  "(\<exists>n. 1 \<le> n \<and> n \<le> 3 \<and>
        filter is_post (trace (check_dependency w st (pkg, raw))) =
          filter is_post (trace st) @
          replicate n (HttpPost \<lparr>q_name = pkg, q_ecosystem = ''npm'', q_version = normalize_version raw\<rparr>))
   \<and> (CHR ''^'' \<notin> set rest \<and> CHR ''~'' \<notin> set rest \<longrightarrow>
         normalize_version rest = rest \<and> strip_leading_markers (CHR ''^'' # rest) = rest
         \<and> normalize_version (CHR ''^'' # rest) = rest \<and> normalize_version (CHR ''~'' # rest) = rest
         \<and> normalize_version (CHR ''^'' # CHR ''~'' # rest) = rest
         \<and> normalize_version (CHR ''~'' # CHR ''^'' # rest) = rest)
   \<and> (CHR ''^'' \<notin> set pre \<and> CHR ''~'' \<notin> set pre \<and> CHR ''~'' \<notin> set rest \<longrightarrow>
         normalize_version (pre @ CHR ''^'' # rest) = pre @ rest)
   \<and> normalize_version ''^2.1.0'' = ''2.1.0'' \<and> normalize_version ''~1.0.3'' = ''1.0.3''"
proof (intro conjI)
  let ?q = "osv_request pkg (normalize_version raw)"
  let ?n = "lookup_attempts w ?q (calls st)"
  have "1 \<le> ?n \<and> ?n \<le> 3"
    by (rule lookup_attempts_bounds)
  moreover from this have "Suc (?n - 1) = ?n"
    by simp
  then have "filter is_post (trace (check_dependency w st (pkg, raw))) =
      filter is_post (trace st) @ replicate ?n (HttpPost ?q)"
    by (simp add: trace_check_dependency posts_attempts_trace)
  ultimately show "\<exists>n. 1 \<le> n \<and> n \<le> 3 \<and>
        filter is_post (trace (check_dependency w st (pkg, raw))) =
          filter is_post (trace st) @
          replicate n (HttpPost \<lparr>q_name = pkg, q_ecosystem = ''npm'', q_version = normalize_version raw\<rparr>)"
    unfolding osv_request_def by blast
next
  show "CHR ''^'' \<notin> set rest \<and> CHR ''~'' \<notin> set rest \<longrightarrow>
         normalize_version rest = rest \<and> strip_leading_markers (CHR ''^'' # rest) = rest
         \<and> normalize_version (CHR ''^'' # rest) = rest \<and> normalize_version (CHR ''~'' # rest) = rest
         \<and> normalize_version (CHR ''^'' # CHR ''~'' # rest) = rest
         \<and> normalize_version (CHR ''~'' # CHR ''^'' # rest) = rest"
    by (cases rest) (auto simp: normalize_version_def strip_leading_markers_def remove1_idem)
next
  show "CHR ''^'' \<notin> set pre \<and> CHR ''~'' \<notin> set pre \<and> CHR ''~'' \<notin> set rest \<longrightarrow>
         normalize_version (pre @ CHR ''^'' # rest) = pre @ rest"
    by (simp add: normalize_version_def remove1_append remove1_idem)
next
  show "normalize_version ''^2.1.0'' = ''2.1.0''"
    by code_simp
next
  show "normalize_version ''~1.0.3'' = ''1.0.3''"
    by code_simp
qed

theorem lookup_version_normalised_witness:
  "normalize_version ''^2.1.0'' = ''2.1.0'' \<and> strip_leading_markers ''^2.1.0'' = ''2.1.0''
   \<and> normalize_version ''1.0.0 || ^2.1.0'' = ''1.0.0 || 2.1.0''
   \<and> filter is_post (trace (check_dependency busy_world after_fetch (''alpha'', ''^1.0.0''))) =
        replicate 2 (HttpPost \<lparr>q_name = ''alpha'', q_ecosystem = ''npm'', q_version = ''1.0.0''\<rparr>)"
proof -
  note t = lookup_version_normalised
    [of busy_world after_fetch "''alpha''" "''^1.0.0''" "''2.1.0''" "''1.0.0 || ''"]
  have free: "CHR ''^'' \<notin> set ''2.1.0'' \<and> CHR ''~'' \<notin> set ''2.1.0''"
    by simp
  from t [THEN conjunct2, THEN conjunct1] free
  have m: "normalize_version ''2.1.0'' = ''2.1.0'' \<and> strip_leading_markers (CHR ''^'' # ''2.1.0'') = ''2.1.0''
         \<and> normalize_version (CHR ''^'' # ''2.1.0'') = ''2.1.0'' \<and> normalize_version (CHR ''~'' # ''2.1.0'') = ''2.1.0''
         \<and> normalize_version (CHR ''^'' # CHR ''~'' # ''2.1.0'') = ''2.1.0''
         \<and> normalize_version (CHR ''~'' # CHR ''^'' # ''2.1.0'') = ''2.1.0''"
    by (rule mp)
  have a: "normalize_version ''^2.1.0'' = ''2.1.0''"
    using m by simp
  have b: "strip_leading_markers ''^2.1.0'' = ''2.1.0''"
    using m by simp
  have "CHR ''^'' \<notin> set ''1.0.0 || '' \<and> CHR ''~'' \<notin> set ''1.0.0 || '' \<and> CHR ''~'' \<notin> set ''2.1.0''"
    by simp
  with t [THEN conjunct2, THEN conjunct2, THEN conjunct1]
  have "normalize_version (''1.0.0 || '' @ CHR ''^'' # ''2.1.0'') = ''1.0.0 || '' @ ''2.1.0''"
    by (rule mp)
  then have c: "normalize_version ''1.0.0 || ^2.1.0'' = ''1.0.0 || 2.1.0''"
    by simp
  have two: "filter is_post (trace (check_dependency busy_world after_fetch (''alpha'', ''^1.0.0''))) =
        replicate 2 (HttpPost \<lparr>q_name = ''alpha'', q_ecosystem = ''npm'', q_version = ''1.0.0''\<rparr>)"
    by code_simp
  from t [THEN conjunct1] obtain n where
    "filter is_post (trace (check_dependency busy_world after_fetch (''alpha'', ''^1.0.0''))) =
          filter is_post (trace after_fetch) @
          replicate n (HttpPost \<lparr>q_name = ''alpha'', q_ecosystem = ''npm'', q_version = normalize_version ''^1.0.0''\<rparr>)"
    by blast
  with two have d: "filter is_post (trace (check_dependency busy_world after_fetch (''alpha'', ''^1.0.0''))) =
        replicate 2 (HttpPost \<lparr>q_name = ''alpha'', q_ecosystem = ''npm'', q_version = ''1.0.0''\<rparr>)"
    by simp
  show ?thesis
    by (intro conjI) (rule a b c d)+
qed

section \<open>The repository URL\<close>

text \<open>
  The matcher agrees with the regular expression read as a set of strings: a string
  matches exactly when it contains \<^verbatim>\<open>github.com/\<close>, a non-empty owner without a slash, a
  slash, and a non-empty repository name without a slash.
\<close>

lemma match_here_Nil: "match_here [] = None"
  by (simp add: match_here_def)

lemma match_here_SomeD:
  assumes "match_here s = Some (ow, rp, br)"
  shows "\<exists>rest. s = ''github.com/'' @ ow @ ''/'' @ rp @ rest \<and> ow \<noteq> [] \<and> CHR ''/'' \<notin> set ow
           \<and> rp \<noteq> [] \<and> CHR ''/'' \<notin> set rp"
proof -
  let ?r = "drop 11 s"
  from assms have pre: "take 11 s = ''github.com/''"
    by (simp add: match_here_def split: if_splits)
  from assms pre have ow: "ow = takeWhile not_slash ?r" "ow \<noteq> []"
    by (auto simp: match_here_def Let_def split: if_splits list.splits)
  from assms pre obtain c r2 where r1: "dropWhile not_slash ?r = c # r2"
    by (auto simp: match_here_def Let_def split: if_splits list.splits)
  from assms pre r1 have rp: "rp = takeWhile not_slash r2" "rp \<noteq> []"
    by (auto simp: match_here_def Let_def split: if_splits list.splits)
  from r1 have "\<not> not_slash c"
    using hd_dropWhile [of not_slash ?r] by auto
  then have c: "c = CHR ''/''"
    by (simp add: not_slash_def)
  have "s = take 11 s @ ?r"
    by simp
  also have "?r = takeWhile not_slash ?r @ dropWhile not_slash ?r"
    by simp
  also have "dropWhile not_slash ?r = c # (takeWhile not_slash r2 @ dropWhile not_slash r2)"
    by (simp add: r1)
  finally have "s = ''github.com/'' @ ow @ ''/'' @ rp @ dropWhile not_slash r2"
    by (simp add: pre ow rp c)
  moreover have "CHR ''/'' \<notin> set ow"
    unfolding ow using set_takeWhileD [of "CHR ''/''" not_slash ?r] by (auto simp: not_slash_def)
  moreover have "CHR ''/'' \<notin> set rp"
    unfolding rp using set_takeWhileD [of "CHR ''/''" not_slash r2] by (auto simp: not_slash_def)
  ultimately show ?thesis
    using ow(2) rp(2) by blast
qed

lemma takeWhile_not_slash_run:
  "CHR ''/'' \<notin> set xs \<Longrightarrow> takeWhile not_slash (xs @ CHR ''/'' # ys) = xs"
  by (induction xs) (auto simp: not_slash_def)

lemma dropWhile_not_slash_run:
  "CHR ''/'' \<notin> set xs \<Longrightarrow> dropWhile not_slash (xs @ CHR ''/'' # ys) = CHR ''/'' # ys"
  by (induction xs) (auto simp: not_slash_def)

lemma match_here_shape:
  assumes "ow \<noteq> []" "CHR ''/'' \<notin> set ow" "rp \<noteq> []" "CHR ''/'' \<notin> set rp"
  shows "match_here (''github.com/'' @ ow @ ''/'' @ rp @ rest) \<noteq> None"
proof -
  from assms(3,4) obtain x xs where rp: "rp = x # xs" "not_slash x"
    by (cases rp) (auto simp: not_slash_def)
  have "takeWhile not_slash (rp @ rest) \<noteq> []"
    by (simp add: rp)
  then show ?thesis
    using assms(1,2)
    by (simp add: match_here_def takeWhile_not_slash_run dropWhile_not_slash_run Let_def
        split: list.splits)
qed

lemma repo_match_Some_iff:
  "repo_match s \<noteq> None \<longleftrightarrow> (\<exists>pre suf. s = pre @ suf \<and> match_here suf \<noteq> None)"
proof (induction s)
  case Nil
  show ?case by (simp add: match_here_Nil)
next
  case (Cons c cs)
  show ?case
  proof (cases "match_here (c # cs)")
    case (Some m)
    then have "c # cs = [] @ (c # cs) \<and> match_here (c # cs) \<noteq> None"
      by simp
    then have "\<exists>pre suf. c # cs = pre @ suf \<and> match_here suf \<noteq> None"
      by blast
    with Some show ?thesis by simp
  next
    case None
    have "(\<exists>pre suf. c # cs = pre @ suf \<and> match_here suf \<noteq> None) \<longleftrightarrow>
          (\<exists>pre suf. cs = pre @ suf \<and> match_here suf \<noteq> None)"
    proof
      assume "\<exists>pre suf. c # cs = pre @ suf \<and> match_here suf \<noteq> None"
      then obtain pre suf where ps: "c # cs = pre @ suf" "match_here suf \<noteq> None"
        by blast
      with None obtain pre' where "pre = c # pre'"
        by (cases pre) auto
      with ps have "cs = pre' @ suf \<and> match_here suf \<noteq> None"
        by simp
      then show "\<exists>pre suf. cs = pre @ suf \<and> match_here suf \<noteq> None"
        by blast
    next
      assume "\<exists>pre suf. cs = pre @ suf \<and> match_here suf \<noteq> None"
      then obtain pre suf where "cs = pre @ suf" "match_here suf \<noteq> None"
        by blast
      then have "c # cs = (c # pre) @ suf \<and> match_here suf \<noteq> None"
        by simp
      then show "\<exists>pre suf. c # cs = pre @ suf \<and> match_here suf \<noteq> None"
        by blast
    qed
    with None Cons.IH show ?thesis by simp
  qed
qed

lemma repo_match_shape:
  "repo_match s \<noteq> None \<longleftrightarrow>
     (\<exists>pre ow rp rest. s = pre @ ''github.com/'' @ ow @ ''/'' @ rp @ rest
        \<and> ow \<noteq> [] \<and> CHR ''/'' \<notin> set ow \<and> rp \<noteq> [] \<and> CHR ''/'' \<notin> set rp)"
proof
  assume "repo_match s \<noteq> None"
  then obtain pre suf where s: "s = pre @ suf" and "match_here suf \<noteq> None"
    unfolding repo_match_Some_iff by blast
  then obtain ow rp br where "match_here suf = Some (ow, rp, br)"
    by (cases "match_here suf") auto
  from match_here_SomeD [OF this] s
  show "\<exists>pre ow rp rest. s = pre @ ''github.com/'' @ ow @ ''/'' @ rp @ rest
        \<and> ow \<noteq> [] \<and> CHR ''/'' \<notin> set ow \<and> rp \<noteq> [] \<and> CHR ''/'' \<notin> set rp"
    by blast
next
  assume "\<exists>pre ow rp rest. s = pre @ ''github.com/'' @ ow @ ''/'' @ rp @ rest
        \<and> ow \<noteq> [] \<and> CHR ''/'' \<notin> set ow \<and> rp \<noteq> [] \<and> CHR ''/'' \<notin> set rp"
  then obtain pre ow rp rest where s: "s = pre @ (''github.com/'' @ ow @ ''/'' @ rp @ rest)"
    and "ow \<noteq> []" "CHR ''/'' \<notin> set ow" "rp \<noteq> []" "CHR ''/'' \<notin> set rp"
    by auto
  then have "match_here (''github.com/'' @ ow @ ''/'' @ rp @ rest) \<noteq> None"
    using match_here_shape by blast
  with s show "repo_match s \<noteq> None"
    unfolding repo_match_Some_iff by blast
qed



lemma endsWith_split: "endsWith s suf \<Longrightarrow> take (length s - length suf) s @ suf = s"
proof -
  assume "endsWith s suf"
  then have "drop (length s - length suf) s = suf"
    by (simp add: endsWith_def)
  then show ?thesis
    using append_take_drop_id [of "length s - length suf" s] by simp
qed

lemma strip_3js: "endsWith s ''.3js'' \<Longrightarrow> take (length s - 4) s @ ''.3js'' = s"
proof -
  assume "endsWith s ''.3js''"
  then have "take (length s - length ''.3js'') s @ ''.3js'' = s"
    by (rule endsWith_split)
  moreover have "length ''.3js'' = 4"
    by simp
  ultimately show ?thesis
    by (simp only:)
qed

lemma sanitizeInput_3js:
  "endsWith (filter (\<lambda>c. c \<notin> set ''<>{}[];'') url) ''.3js'' \<Longrightarrow>
     filter (\<lambda>c. c \<notin> set ''<>{}[];'') url = sanitizeInput url @ ''.3js''"
  using strip_3js [of "filter (\<lambda>c. c \<notin> set ''<>{}[];'') url"]
  by (simp only: sanitizeInput_def Let_def if_True)

lemma sanitizeInput_filtered:
  "\<exists>t. filter (\<lambda>c. c \<notin> set ''<>{}[];'') url = sanitizeInput url @ t \<and> (t = [] \<or> t = ''.3js'')"
proof (cases "endsWith (filter (\<lambda>c. c \<notin> set ''<>{}[];'') url) ''.3js''")
  case True
  then have "filter (\<lambda>c. c \<notin> set ''<>{}[];'') url = sanitizeInput url @ ''.3js''"
    by (rule sanitizeInput_3js)
  then show ?thesis
    by blast
next
  case False
  then have "filter (\<lambda>c. c \<notin> set ''<>{}[];'') url = sanitizeInput url @ []"
    by (simp only: sanitizeInput_def Let_def if_False append_Nil2)
  then show ?thesis
    by blast
qed

lemma sanitizeInput_clean: "set (sanitizeInput url) \<inter> set ''<>{}[];'' = {}"
proof -
  have "set (sanitizeInput url) \<subseteq> set (filter (\<lambda>c. c \<notin> set ''<>{}[];'') url)"
    by (auto simp: sanitizeInput_def Let_def dest: in_set_takeD)
  then show ?thesis
    by auto
qed

text \<open>
  Claim C10. The sanitised URL contains none of the characters \<^verbatim>\<open>< > { } [ ] ;\<close>: it is
  the input without these characters and without one \<^verbatim>\<open>.3js\<close> at the end of what is left.
  The scan of a (non-empty) URL depends on the sanitised URL only: two URLs with the same
  sanitised form give the same result and the same calls. A URL with such characters can
  be accepted: \<^verbatim>\<open>https://github.com/<acme>/{app};.3js\<close> is scanned as
  \<^verbatim>\<open>https://github.com/acme/app\<close>.
\<close>

theorem sanitised_url_decides_scan:
  "set (sanitizeInput url) \<inter> set ''<>{}[];'' = {}
   \<and> (\<exists>t. filter (\<lambda>c. c \<notin> set ''<>{}[];'') url = sanitizeInput url @ t \<and> (t = [] \<or> t = ''.3js''))
   \<and> (endsWith (filter (\<lambda>c. c \<notin> set ''<>{}[];'') url) ''.3js'' \<longrightarrow>
         filter (\<lambda>c. c \<notin> set ''<>{}[];'') url = sanitizeInput url @ ''.3js'')
   \<and> (url1 \<noteq> [] \<and> url2 \<noteq> [] \<and> sanitizeInput url1 = sanitizeInput url2 \<longrightarrow>
         scanRepo w url1 = scanRepo w url2)
   \<and> scanRepo w ''https://github.com/<acme>/{app};.3js'' = scanRepo w ''https://github.com/acme/app''
   \<and> repo_match (with_slash (sanitizeInput ''https://github.com/<acme>/{app};.3js'')) =
         Some (''acme'', ''app'', None)"
proof (intro conjI)
  show "set (sanitizeInput url) \<inter> set ''<>{}[];'' = {}"
    by (rule sanitizeInput_clean)
  show "\<exists>t. filter (\<lambda>c. c \<notin> set ''<>{}[];'') url = sanitizeInput url @ t \<and> (t = [] \<or> t = ''.3js'')"
    by (rule sanitizeInput_filtered)
  show "endsWith (filter (\<lambda>c. c \<notin> set ''<>{}[];'') url) ''.3js'' \<longrightarrow>
         filter (\<lambda>c. c \<notin> set ''<>{}[];'') url = sanitizeInput url @ ''.3js''"
    using sanitizeInput_3js [of url] by blast
  show same: "url1 \<noteq> [] \<and> url2 \<noteq> [] \<and> sanitizeInput url1 = sanitizeInput url2 \<longrightarrow>
         scanRepo w url1 = scanRepo w url2"
    by (simp add: scanRepo_def execute_def)
  have "sanitizeInput ''https://github.com/<acme>/{app};.3js'' = sanitizeInput ''https://github.com/acme/app''"
    by code_simp
  then show "scanRepo w ''https://github.com/<acme>/{app};.3js'' = scanRepo w ''https://github.com/acme/app''"
    by (simp add: scanRepo_def execute_def)
  show "repo_match (with_slash (sanitizeInput ''https://github.com/<acme>/{app};.3js'')) =
         Some (''acme'', ''app'', None)"
    by code_simp
qed

theorem sanitised_url_decides_scan_witness:
  "sanitizeInput ''https://github.com/acme/app.3js'' = sanitizeInput ''https://github.com/ac;me/app''
   \<and> filter (\<lambda>c. c \<notin> set ''<>{}[];'') ''https://github.com/acme/app.3js''
        = sanitizeInput ''https://github.com/acme/app.3js'' @ ''.3js''
   \<and> scanRepo healthy_world ''https://github.com/acme/app.3js'' =
       scanRepo healthy_world ''https://github.com/ac;me/app''
   \<and> fst (scanRepo healthy_world ''https://github.com/<acme>/{app};.3js'') =
       \<lparr>findings = [], error = Some ''No vulnerabilities found''\<rparr>"
proof -
  note t = sanitised_url_decides_scan
    [of "''https://github.com/acme/app.3js''" "''https://github.com/acme/app.3js''"
        "''https://github.com/ac;me/app''" healthy_world]
  have eq: "sanitizeInput ''https://github.com/acme/app.3js'' = sanitizeInput ''https://github.com/ac;me/app''"
    by code_simp
  have ends: "endsWith (filter (\<lambda>c. c \<notin> set ''<>{}[];'') ''https://github.com/acme/app.3js'') ''.3js''"
    by code_simp
  have a: "filter (\<lambda>c. c \<notin> set ''<>{}[];'') ''https://github.com/acme/app.3js''
        = sanitizeInput ''https://github.com/acme/app.3js'' @ ''.3js''"
    using t [THEN conjunct2, THEN conjunct2, THEN conjunct1] ends by (rule mp)
  have "''https://github.com/acme/app.3js'' \<noteq> [] \<and> ''https://github.com/ac;me/app'' \<noteq> []
      \<and> sanitizeInput ''https://github.com/acme/app.3js'' = sanitizeInput ''https://github.com/ac;me/app''"
    using eq by simp
  with t [THEN conjunct2, THEN conjunct2, THEN conjunct2, THEN conjunct1]
  have b: "scanRepo healthy_world ''https://github.com/acme/app.3js'' =
       scanRepo healthy_world ''https://github.com/ac;me/app''"
    by (rule mp)
  have "fst (scanRepo healthy_world ''https://github.com/acme/app'') =
       \<lparr>findings = [], error = Some ''No vulnerabilities found''\<rparr>"
    by code_simp
  with t [THEN conjunct2, THEN conjunct2, THEN conjunct2, THEN conjunct2, THEN conjunct1]
  have c: "fst (scanRepo healthy_world ''https://github.com/<acme>/{app};.3js'') =
       \<lparr>findings = [], error = Some ''No vulnerabilities found''\<rparr>"
    by simp
  show ?thesis
    by (intro conjI) (rule eq a b c)+
qed

section \<open>The manifest fetch and its retries\<close>

lemma non_504_failure_is_terminal:
  "http_get w (calls st) u = GetFail err \<Longrightarrow> \<not> has_status err 504 \<Longrightarrow>
     fetch_loop w u (Suc n) st =
       (Inl (''Failed to fetch package.json: '' @ getErrorMessage err), request (HttpGet u) st)"
  by simp

lemma third_failure_is_fetch_failed:
  "http_get w (calls st) u = GetFail err \<Longrightarrow>
     fetch_loop w u 1 st =
       (Inl (''Failed to fetch package.json: '' @ getErrorMessage err), request (HttpGet u) st)"
  by simp

lemma retries_exhausted_needs_empty_body:
  "fst (fetch_loop w u n st) = Inr None \<Longrightarrow> 0 < n \<Longrightarrow> \<exists>k. http_get w k u = GetOk None"
  by (induction n arbitrary: st) (auto split: get_result.splits if_splits)

lemma fetch_loop_message: "fetch_loop w u n st = (Inl msg, st') \<Longrightarrow> msg \<noteq> []"
  by (induction n arbitrary: st) (auto split: get_result.splits if_splits)

text \<open>
  Claim C2, at a manifest address that answers 504 every time. The scan stage makes three
  requests with pauses of two seconds between them, as the claim says, and then returns
  the error of the third failure, \<^verbatim>\<open>Failed to fetch package.json: ...\<close> with the message of
  the response, where the claim says \<^verbatim>\<open>Failed to fetch package.json after retries\<close>. The
  guard \<^verbatim>\<open>retries > 1\<close> keeps \<^verbatim>\<open>retries\<close> from reaching 0, so the third failure takes the
  early \<^verbatim>\<open>return\<close>; the error after the loop is returned only for a response with an
  empty body (lemma \<open>retries_exhausted_needs_empty_body\<close>).
\<close>

theorem gateway_timeout_ends_as_fetch_failed:
  "scanRepo timeout_world ''https://github.com/acme/app'' =
     (\<lparr>findings = [], error = Some ''Failed to fetch package.json: Request failed with status code 504''\<rparr>,
      [HttpGet ''https://raw.githubusercontent.com/acme/app/main/package.json'', Delay 2000,
       HttpGet ''https://raw.githubusercontent.com/acme/app/main/package.json'', Delay 2000,
       HttpGet ''https://raw.githubusercontent.com/acme/app/main/package.json''])"
  by code_simp

section \<open>The report stage\<close>

lemma status_404_not_504: "has_status err 404 \<Longrightarrow> \<not> has_status err 504"
  by (cases "(err, 404 :: int)" rule: has_status.cases) auto

text \<open>
  Claim C3. A scan result whose error field is populated (it holds a non-empty string,
  which is what the test \<^verbatim>\<open>if (inputData.error)\<close> asks) makes the report stage return the
  fixed diagnostic around that error and leave the trace as it was: the narrator is not
  invoked. When the first manifest request fails with status 404, the whole workflow
  returns the diagnostic around \<^verbatim>\<open>Failed to fetch package.json: \<close> and the message of the
  failure, after that one request.
\<close>

theorem error_short_circuits_report:
  "(error r = Some e \<and> e \<noteq> [] \<longrightarrow>
      explainVulnerabilities w r tr =
        (Inr (''Error occurred: '' @ e
              @ ''. Please verify the repository URL or ensure package.json exists.''), tr))
   \<and> (url \<noteq> [] \<and> repo_match (with_slash (sanitizeInput url)) = Some m
        \<and> http_get w 0 (package_url m) = GetFail err \<and> has_status err 404 \<longrightarrow>
      healthWorkflow w url =
        (Inr (''Error occurred: Failed to fetch package.json: '' @ getErrorMessage err
              @ ''. Please verify the repository URL or ensure package.json exists.''),
         [HttpGet (package_url m)]))"
proof (intro conjI impI)
  assume "error r = Some e \<and> e \<noteq> []"
  then show "explainVulnerabilities w r tr =
        (Inr (''Error occurred: '' @ e
              @ ''. Please verify the repository URL or ensure package.json exists.''), tr)"
    by (cases e) (simp_all add: explainVulnerabilities_def)
next
  assume a: "url \<noteq> [] \<and> repo_match (with_slash (sanitizeInput url)) = Some m
        \<and> http_get w 0 (package_url m) = GetFail err \<and> has_status err 404"
  then have "\<not> has_status err 504"
    by (simp add: status_404_not_504)
  with a have "fetch_loop w (package_url m) 3 init_state =
      (Inl (''Failed to fetch package.json: '' @ getErrorMessage err),
       request (HttpGet (package_url m)) init_state)"
    by (simp add: numeral_3_eq_3 init_state_def)
  with a have "scanRepo w url =
      (failed (''Failed to fetch package.json: '' @ getErrorMessage err), [HttpGet (package_url m)])"
    by (simp add: scanRepo_def execute_def scan_manifest_def request_def init_state_def)
  then show "healthWorkflow w url =
        (Inr (''Error occurred: Failed to fetch package.json: '' @ getErrorMessage err
              @ ''. Please verify the repository URL or ensure package.json exists.''),
         [HttpGet (package_url m)])"
    by (simp add: healthWorkflow_def explainVulnerabilities_def failed_def)
qed

theorem error_short_circuits_report_witness:
  "explainVulnerabilities missing_world
      \<lparr>findings = [], error = Some ''No dependencies found in package.json''\<rparr> [] =
     (Inr ''Error occurred: No dependencies found in package.json. Please verify the repository URL or ensure package.json exists.'', [])
   \<and> healthWorkflow missing_world ''https://github.com/acme/app'' =
     (Inr ''Error occurred: Failed to fetch package.json: Request failed with status code 404. Please verify the repository URL or ensure package.json exists.'',
      [HttpGet ''https://raw.githubusercontent.com/acme/app/main/package.json''])"
proof -
  note t = error_short_circuits_report
    [of "\<lparr>findings = [], error = Some ''No dependencies found in package.json''\<rparr>"
        "''No dependencies found in package.json''" missing_world "[]"
        "''https://github.com/acme/app''" "(''acme'', ''app'', None)"
        "AxiosError (Some (404, None)) ''Request failed with status code 404''"]
  have m: "repo_match (with_slash (sanitizeInput ''https://github.com/acme/app'')) = Some (''acme'', ''app'', None)"
    by code_simp
  have g: "http_get missing_world 0 (package_url (''acme'', ''app'', None)) =
      GetFail (AxiosError (Some (404, None)) ''Request failed with status code 404'')"
    by code_simp
  have u: "package_url (''acme'', ''app'', None) = ''https://raw.githubusercontent.com/acme/app/main/package.json''"
    by code_simp
  have e: "getErrorMessage (AxiosError (Some (404, None)) ''Request failed with status code 404'') =
      ''Request failed with status code 404''"
    by code_simp
  from t [THEN conjunct1] have first: "explainVulnerabilities missing_world
      \<lparr>findings = [], error = Some ''No dependencies found in package.json''\<rparr> [] =
     (Inr ''Error occurred: No dependencies found in package.json. Please verify the repository URL or ensure package.json exists.'', [])"
    by simp
  from t [THEN conjunct2] m g have "healthWorkflow missing_world ''https://github.com/acme/app'' =
      (Inr (''Error occurred: Failed to fetch package.json: ''
            @ getErrorMessage (AxiosError (Some (404, None)) ''Request failed with status code 404'')
            @ ''. Please verify the repository URL or ensure package.json exists.''),
       [HttpGet (package_url (''acme'', ''app'', None))])"
    by simp
  then have second: "healthWorkflow missing_world ''https://github.com/acme/app'' =
     (Inr ''Error occurred: Failed to fetch package.json: Request failed with status code 404. Please verify the repository URL or ensure package.json exists.'',
      [HttpGet ''https://raw.githubusercontent.com/acme/app/main/package.json''])"
    by (simp only: u e) simp
  from first second show ?thesis
    by (rule conjI)
qed

lemma empty_findings_carry_error:
  "findings (fst (scanRepo w url)) = [] \<Longrightarrow> \<exists>e. error (fst (scanRepo w url)) = Some e \<and> e \<noteq> []"
  by (auto simp: scanRepo_def execute_def scan_manifest_def failed_def Let_def
      dest: fetch_loop_message split: option.splits prod.splits sum.splits if_splits)

lemma healthy_narrative_unreachable:
  assumes "findings (fst (scanRepo w url)) = []"
  shows "snd (healthWorkflow w url) = snd (scanRepo w url)"
proof -
  obtain r tr where s: "scanRepo w url = (r, tr)"
    by (cases "scanRepo w url")
  with assms obtain e where "error r = Some e \<and> e \<noteq> []"
    using empty_findings_carry_error [of w url] by auto
  then have "explainVulnerabilities w r tr =
      (Inr (''Error occurred: '' @ e
            @ ''. Please verify the repository URL or ensure package.json exists.''), tr)"
    by (cases e) (simp_all add: explainVulnerabilities_def)
  with s show ?thesis
    by (simp add: healthWorkflow_def)
qed

text \<open>
  Claim C1, at a repository with the manifest \<^verbatim>\<open>{"left-pad": "^1.3.0"}\<close> for which the
  vulnerability database has no match. The scan stage returns no findings and the error
  \<^verbatim>\<open>No vulnerabilities found\<close>; the report stage then returns the error diagnostic and
  never asks the narrator, although its prompt tells the narrator what to say when no
  vulnerabilities are found. By \<open>healthy_narrative_unreachable\<close> this is so for every run
  without findings.
\<close>

theorem healthy_repository_reported_as_error:
  "scanRepo healthy_world ''https://github.com/acme/app'' =
     (\<lparr>findings = [], error = Some ''No vulnerabilities found''\<rparr>,
      [HttpGet ''https://raw.githubusercontent.com/acme/app/main/package.json'',
       HttpPost \<lparr>q_name = ''left-pad'', q_ecosystem = ''npm'', q_version = ''1.3.0''\<rparr>,
       Delay 200])
   \<and> healthWorkflow healthy_world ''https://github.com/acme/app'' =
     (Inr ''Error occurred: No vulnerabilities found. Please verify the repository URL or ensure package.json exists.'',
      [HttpGet ''https://raw.githubusercontent.com/acme/app/main/package.json'',
       HttpPost \<lparr>q_name = ''left-pad'', q_ecosystem = ''npm'', q_version = ''1.3.0''\<rparr>,
       Delay 200])"
  by code_simp

end
